theory Spec2Isabelle
  imports Complex_Main
begin

section \<open>Data model\<close>

text \<open>
  The scripts pass notes around as Python dictionaries. \<^verbatim>\<open>create_melody.py\<close> builds
  them with the keys \<^verbatim>\<open>'note'\<close> and \<^verbatim>\<open>'velocity'\<close>; \<^verbatim>\<open>midi_transform.py\<close> adds the
  key \<^verbatim>\<open>'time'\<close>. The key \<^verbatim>\<open>'note'\<close> is the field \<open>pitch\<close> below (\<open>note\<close> is a
  reserved word of Isar). Python integers are unbounded, hence \<open>int\<close>.
\<close>

record note_dict =
  pitch :: int
  velocity :: int

record timed_note = note_dict +
  time :: int

text \<open>
  A melody event is a dictionary tagged by \<^verbatim>\<open>'type'\<close>:
  \<^verbatim>\<open>{'type': 'note', 'note', 'velocity', 'duration'}\<close> or
  \<^verbatim>\<open>{'type': 'rest', 'duration'}\<close>.
\<close>

datatype melody_event =
    Note_event int int int
  | Rest_event int

fun duration :: "melody_event \<Rightarrow> int" where
  "duration (Note_event n v d) = d"
| "duration (Rest_event d) = d"

fun is_rest :: "melody_event \<Rightarrow> bool" where
  "is_rest (Note_event n v d) = False"
| "is_rest (Rest_event d) = True"

datatype py_error = KeyError

text \<open>
  Python's \<^verbatim>\<open>int(x)\<close> on a float truncates toward zero. The floats of the two scripts
  are halves of integers (\<^verbatim>\<open>(a + b) / 2\<close>, \<^verbatim>\<open>d * 1.5\<close>); on integers of magnitude
  below \<open>2 ^ 51\<close>, which covers every MIDI pitch and tick count, IEEE double
  arithmetic on them is exact, so they are modelled as real numbers.
\<close>

definition py_int :: "real \<Rightarrow> int" where
  "py_int x = (if 0 \<le> x then \<lfloor>x\<rfloor> else - \<lfloor>- x\<rfloor>)"

section \<open>Pitch transformers (\<^verbatim>\<open>midi_transform.py\<close>)\<close>

text \<open>
  A mido message, reduced to what \<^verbatim>\<open>extract_first_12_notes\<close> reads: its type, and for
  a \<^verbatim>\<open>note_on\<close> message the note, velocity and time.
\<close>

datatype message =
    Note_on int int int
  | Other_message string

fun extract_loop :: "message list \<Rightarrow> timed_note list \<Rightarrow> timed_note list" where
  "extract_loop [] notes = notes"
| "extract_loop (Other_message ty # msgs) notes = extract_loop msgs notes"
| "extract_loop (Note_on n v t # msgs) notes =
     (if v > 0 then
        (let notes' = notes @ [\<lparr>pitch = n, velocity = v, time = t\<rparr>]
         in if length notes' = 12 then notes' else extract_loop msgs notes')
      else extract_loop msgs notes)"

definition extract_first_12_notes :: "message list list \<Rightarrow> timed_note list" where
  "extract_first_12_notes tracks = extract_loop (concat tracks) []"

definition reverse_notes :: "'a list \<Rightarrow> 'a list" where
  "reverse_notes notes = rev notes"

text \<open>The body of the \<^verbatim>\<open>for i in range(1, len(notes))\<close> loop of \<^verbatim>\<open>intervallic_inversion\<close>.\<close>

definition inversion_step :: "timed_note list \<Rightarrow> nat \<Rightarrow> timed_note list \<Rightarrow> timed_note list" where
  "inversion_step notes i inverted =
     (let interval = pitch (notes ! i) - pitch (notes ! (i - 1));
          inverted_interval = - interval;
          new_note = pitch (inverted ! (i - 1)) + inverted_interval;
          new_note = max 0 (min 127 new_note)
      in inverted @ [\<lparr>pitch = new_note, velocity = velocity (notes ! i), time = time (notes ! i)\<rparr>])"

definition intervallic_inversion :: "timed_note list \<Rightarrow> timed_note list" where
  "intervallic_inversion notes =
     (if notes = [] then []
      else fold (inversion_step notes) [1..<length notes] [notes ! 0])"

text \<open>
  The value of \<^verbatim>\<open>new_note\<close> in iteration \<open>i\<close> of that loop before it is clamped
  (line 61 of the source): the previous output pitch plus the negated interval.
\<close>

definition new_note_unclamped :: "timed_note list \<Rightarrow> nat \<Rightarrow> int" where
  "new_note_unclamped notes i =
     pitch (intervallic_inversion notes ! (i - 1)) - (pitch (notes ! i) - pitch (notes ! (i - 1)))"

text \<open>The body of the \<^verbatim>\<open>for note in notes\<close> loop of \<^verbatim>\<open>invert_notes\<close>.\<close>

definition invert_step :: "real \<Rightarrow> timed_note \<Rightarrow> timed_note list \<Rightarrow> timed_note list" where
  "invert_step axis n inverted =
     (let new_note = py_int (2 * axis - of_int (pitch n));
          new_note = max 0 (min 127 new_note)
      in inverted @ [\<lparr>pitch = new_note, velocity = velocity n, time = time n\<rparr>])"

text \<open>
  \<^verbatim>\<open>min(n['note'] for n in notes)\<close> and \<^verbatim>\<open>max(...)\<close> run over a sequence that the
  guard \<^verbatim>\<open>if not notes\<close> has made non-empty.
\<close>

definition invert_notes :: "timed_note list \<Rightarrow> real option \<Rightarrow> timed_note list" where
  "invert_notes notes axis =
     (case notes of
        [] \<Rightarrow> []
      | n0 # rest \<Rightarrow>
          (let axis =
                 (case axis of
                    None \<Rightarrow>
                      (let min_note = fold (\<lambda>n m. min m (pitch n)) rest (pitch n0);
                           max_note = fold (\<lambda>n m. max m (pitch n)) rest (pitch n0)
                       in of_int (min_note + max_note) / 2)
                  | Some a \<Rightarrow> a)
           in fold (invert_step axis) notes []))"

text \<open>
  \<^verbatim>\<open>main\<close> of \<^verbatim>\<open>midi_transform.py\<close>: the four steps and their concatenation
  (\<open>main_steps\<close> is the part after the extraction).
\<close>

definition main_steps :: "timed_note list \<Rightarrow> timed_note list" where
  "main_steps step1_notes =
     (let step2_notes = reverse_notes step1_notes;
          step3_notes = intervallic_inversion step1_notes;
          step4_notes = reverse_notes step3_notes;
          all_notes = step1_notes @ step2_notes @ step3_notes @ step4_notes
      in all_notes)"

definition main :: "message list list \<Rightarrow> timed_note list" where
  "main input_file = main_steps (extract_first_12_notes input_file)"

section \<open>Rhythm assignment (\<^verbatim>\<open>create_melody.py\<close>)\<close>

text \<open>The dictionary \<^verbatim>\<open>duration_map\<close>; a lookup of a missing key raises \<^verbatim>\<open>KeyError\<close>.\<close>

definition duration_map :: "int \<Rightarrow> int \<rightharpoonup> int" where
  "duration_map ticks_per_beat =
     [1 \<mapsto> ticks_per_beat div 8,
      2 \<mapsto> ticks_per_beat div 4,
      3 \<mapsto> ticks_per_beat div 2,
      4 \<mapsto> ticks_per_beat,
      5 \<mapsto> ticks_per_beat * 2,
      6 \<mapsto> ticks_per_beat * 4]"

text \<open>The local variables of \<^verbatim>\<open>create_melody_with_random_durations\<close>.\<close>

record engine_state =
  melody_events :: "melody_event list"
  note_index :: nat
  held_note :: "note_dict option"
  event_number :: nat

definition initial_state :: engine_state where
  "initial_state = \<lparr>melody_events = [], note_index = 0, held_note = None, event_number = 1\<rparr>"

text \<open>
  One pass through the body of the \<^verbatim>\<open>while\<close> loop. The two calls of
  \<^verbatim>\<open>random.randint\<close> are the pair \<open>draw\<close>: the randomness is an input of the model.
  The caller has checked \<open>note_index st < length notes\<close>, so \<open>notes ! note_index st\<close> is
  the element Python reads.
\<close>

definition loop_body ::
  "note_dict list \<Rightarrow> int \<Rightarrow> int \<times> int \<Rightarrow> engine_state \<Rightarrow> py_error + engine_state" where
  "loop_body notes ticks_per_beat draw st =
     (let (current_note, st) =
            (case held_note st of
               Some h \<Rightarrow> (h, st\<lparr>held_note := None\<rparr>)
             | None \<Rightarrow> (notes ! note_index st, st\<lparr>note_index := note_index st + 1\<rparr>));
          (duration_choice, modifier_choice) = draw
      in case duration_map ticks_per_beat duration_choice of
           None \<Rightarrow> Inl KeyError
         | Some base_duration \<Rightarrow>
             (let st =
                (if modifier_choice = 1 then
                   st\<lparr>melody_events := melody_events st @
                        [Note_event (pitch current_note) (velocity current_note) base_duration]\<rparr>
                 else if modifier_choice = 2 then
                   st\<lparr>melody_events := melody_events st @
                        [Note_event (pitch current_note) (velocity current_note)
                           (py_int (of_int base_duration * (3 / 2)))]\<rparr>
                 else
                   st\<lparr>melody_events := melody_events st @ [Rest_event base_duration],
                      held_note := Some current_note\<rparr>)
              in Inr (st\<lparr>event_number := event_number st + 1\<rparr>)))"

text \<open>
  The loop may run forever (a held note that draws the silence modifier again and
  again), so the draws are a finite list: \<open>Needs_draw\<close> is the loop still running when
  the list is used up, with the state it has reached.
\<close>

datatype 'a outcome =
    Returned 'a
  | Raised py_error
  | Needs_draw 'a

fun while_loop ::
  "note_dict list \<Rightarrow> int \<Rightarrow> (int \<times> int) list \<Rightarrow> engine_state \<Rightarrow> engine_state outcome" where
  "while_loop notes ticks_per_beat [] st =
     (if note_index st < length notes then Needs_draw st else Returned st)"
| "while_loop notes ticks_per_beat (draw # draws) st =
     (if note_index st < length notes then
        (case loop_body notes ticks_per_beat draw st of
           Inl e \<Rightarrow> Raised e
         | Inr st' \<Rightarrow> while_loop notes ticks_per_beat draws st')
      else Returned st)"

definition create_melody_with_random_durations ::
  "note_dict list \<Rightarrow> int \<Rightarrow> (int \<times> int) list \<Rightarrow> melody_event list outcome" where
  "create_melody_with_random_durations notes ticks_per_beat draws =
     map_outcome melody_events (while_loop notes ticks_per_beat draws initial_state)"

text \<open>The events a run has appended to \<^verbatim>\<open>melody_events\<close>; an exception discards them.\<close>

fun emitted :: "'a list outcome \<Rightarrow> 'a list" where
  "emitted (Returned evs) = evs"
| "emitted (Needs_draw evs) = evs"
| "emitted (Raised e) = []"

text \<open>What \<^verbatim>\<open>random.randint(1, 6)\<close> and \<^verbatim>\<open>random.randint(1, 3)\<close> can return.\<close>

definition valid_draw :: "int \<times> int \<Rightarrow> bool" where
  "valid_draw draw = (fst draw \<in> {1..6} \<and> snd draw \<in> {1..3})"


section \<open>Intervallic inversion\<close>

lemma inversion_step_snoc:
  "inversion_step notes i inverted = inverted @
     [\<lparr>pitch = max 0 (min 127 (pitch (inverted ! (i - 1)) - (pitch (notes ! i) - pitch (notes ! (i - 1))))),
       velocity = velocity (notes ! i), time = time (notes ! i)\<rparr>]"
  by (simp add: inversion_step_def Let_def)

lemma inversion_fold_Suc:
  "1 \<le> k \<Longrightarrow> fold (inversion_step notes) [1..<Suc k] acc =
     inversion_step notes k (fold (inversion_step notes) [1..<k] acc)"
  by simp

text \<open>After the iterations \<open>1, \<dots>, k - 1\<close> the list \<^verbatim>\<open>inverted\<close> has \<open>k\<close> elements.\<close>

lemma inversion_fold_length:
  "1 \<le> k \<Longrightarrow> length (fold (inversion_step notes) [1..<k] [n0]) = k"
proof (induction k)
  case 0
  then show ?case by simp
next
  case (Suc k)
  show ?case
  proof (cases "k = 0")
    case True
    then show ?thesis by simp
  next
    case False
    then have k: "1 \<le> k" by simp
    with Suc.IH have len: "length (fold (inversion_step notes) [1..<k] [n0]) = k" by simp
    have "length (inversion_step notes k (fold (inversion_step notes) [1..<k] [n0])) = Suc k"
      using len by (subst inversion_step_snoc) simp
    then show ?thesis
      by (simp only: inversion_fold_Suc [OF k])
  qed
qed

text \<open>Each element is the one its iteration appended; later iterations leave it alone.\<close>

lemma inversion_fold_nth:
  assumes "i < k"
  shows "fold (inversion_step notes) [1..<k] [n0] ! i =
     (if i = 0 then n0
      else \<lparr>pitch = max 0 (min 127 (pitch (fold (inversion_step notes) [1..<k] [n0] ! (i - 1))
                     - (pitch (notes ! i) - pitch (notes ! (i - 1))))),
            velocity = velocity (notes ! i), time = time (notes ! i)\<rparr>)"
  using assms
proof (induction k)
  case 0
  then show ?case by simp
next
  case (Suc k)
  let ?prev = "fold (inversion_step notes) [1..<k] [n0]"
  show ?case
  proof (cases "k = 0")
    case True
    with Suc.prems show ?thesis by simp
  next
    case False
    then have k: "1 \<le> k" by simp
    have len: "length ?prev = k" by (rule inversion_fold_length [OF k])
    have step: "fold (inversion_step notes) [1..<Suc k] [n0] = ?prev @
       [\<lparr>pitch = max 0 (min 127 (pitch (?prev ! (k - 1)) - (pitch (notes ! k) - pitch (notes ! (k - 1))))),
         velocity = velocity (notes ! k), time = time (notes ! k)\<rparr>]"
      by (simp only: inversion_fold_Suc [OF k]) (rule inversion_step_snoc)
    show ?thesis
    proof (cases "i < k")
      case True
      with Suc.IH have ih: "?prev ! i = (if i = 0 then n0
          else \<lparr>pitch = max 0 (min 127 (pitch (?prev ! (i - 1)) - (pitch (notes ! i) - pitch (notes ! (i - 1))))),
            velocity = velocity (notes ! i), time = time (notes ! i)\<rparr>)" by simp
      from True len show ?thesis
        by (simp only: step nth_append) (use ih in auto)
    next
      case False
      with Suc.prems have "i = k" by simp
      with k len show ?thesis
        by (simp only: step nth_append) auto
    qed
  qed
qed

lemma intervallic_inversion_length:
  "length (intervallic_inversion notes) = length notes"
proof (cases "notes = []")
  case True
  then show ?thesis by (simp add: intervallic_inversion_def)
next
  case False
  then have "1 \<le> length notes" by (simp add: Suc_le_eq)
  then show ?thesis
    using False by (simp only: intervallic_inversion_def if_False inversion_fold_length)
qed

lemma intervallic_inversion_nth:
  assumes "i < length notes"
  shows "intervallic_inversion notes ! i =
     (if i = 0 then notes ! 0
      else \<lparr>pitch = max 0 (min 127 (pitch (intervallic_inversion notes ! (i - 1))
                     - (pitch (notes ! i) - pitch (notes ! (i - 1))))),
            velocity = velocity (notes ! i), time = time (notes ! i)\<rparr>)"
proof -
  from assms have ne: "notes \<noteq> []" by auto
  show ?thesis
    using ne by (simp only: intervallic_inversion_def if_False) (rule inversion_fold_nth [OF assms])
qed

text \<open>
  Claim C3. For a non-empty sequence, the first output of \<open>intervallic_inversion\<close> is the
  first input unchanged; at every index \<open>i \<ge> 1\<close> the output pitch is the previous
  \<^emph>\<open>output\<close> pitch minus the input interval \<open>S[i] - S[i-1]\<close>, clamped to \<open>[0, 127]\<close>, and
  velocity and time are those of the input event at \<open>i\<close>.
\<close>

theorem intervallic_inversion_recurrence:
  assumes "notes \<noteq> []"
  shows "intervallic_inversion notes ! 0 = notes ! 0 \<and>
    (\<forall>i. 1 \<le> i \<and> i < length notes \<longrightarrow>
       pitch (intervallic_inversion notes ! i) =
         max 0 (min 127 (pitch (intervallic_inversion notes ! (i - 1))
                          - (pitch (notes ! i) - pitch (notes ! (i - 1))))) \<and>
       velocity (intervallic_inversion notes ! i) = velocity (notes ! i) \<and>
       time (intervallic_inversion notes ! i) = time (notes ! i))"
proof (intro conjI allI impI)
  from assms have "0 < length notes" by simp
  then show "intervallic_inversion notes ! 0 = notes ! 0"
    by (simp add: intervallic_inversion_nth)
next
  fix i assume "1 \<le> i \<and> i < length notes"
  then have i: "i < length notes" "i \<noteq> 0" by simp_all
  have eq: "intervallic_inversion notes ! i =
      \<lparr>pitch = max 0 (min 127 (pitch (intervallic_inversion notes ! (i - 1))
                     - (pitch (notes ! i) - pitch (notes ! (i - 1))))),
            velocity = velocity (notes ! i), time = time (notes ! i)\<rparr>"
    using intervallic_inversion_nth [OF i(1)] i(2) by simp
  show "pitch (intervallic_inversion notes ! i) =
         max 0 (min 127 (pitch (intervallic_inversion notes ! (i - 1))
                          - (pitch (notes ! i) - pitch (notes ! (i - 1)))))"
    by (subst eq) simp
  show "velocity (intervallic_inversion notes ! i) = velocity (notes ! i)"
    by (subst eq) simp
  show "time (intervallic_inversion notes ! i) = time (notes ! i)"
    by (subst eq) simp
qed

text \<open>
  The theorem at the input with pitches \<open>5, 20, 10\<close>: the interval \<open>+15\<close> takes the
  second output to \<open>-10\<close>, clamped to \<open>0\<close>, and the third output continues from that
  clamped \<open>0\<close> (\<open>0 - (10 - 20) = 10\<close>), not from the unclamped \<open>-10\<close>.
\<close>

theorem intervallic_inversion_recurrence_witness:
  "[\<lparr>pitch = 5, velocity = 70, time = 0\<rparr>, \<lparr>pitch = 20, velocity = 71, time = 10\<rparr>,
    \<lparr>pitch = 10, velocity = 72, time = 20\<rparr>] \<noteq> [] \<and>
   intervallic_inversion
     [\<lparr>pitch = 5, velocity = 70, time = 0\<rparr>, \<lparr>pitch = 20, velocity = 71, time = 10\<rparr>,
      \<lparr>pitch = 10, velocity = 72, time = 20\<rparr>] =
     [\<lparr>pitch = 5, velocity = 70, time = 0\<rparr>, \<lparr>pitch = 0, velocity = 71, time = 10\<rparr>,
      \<lparr>pitch = 10, velocity = 72, time = 20\<rparr>]"
  using intervallic_inversion_recurrence
    [of "[\<lparr>pitch = 5, velocity = 70, time = 0\<rparr>, \<lparr>pitch = 20, velocity = 71, time = 10\<rparr>,
      \<lparr>pitch = 10, velocity = 72, time = 20\<rparr>]"]
  by (simp add: intervallic_inversion_def inversion_step_def upt_conv_Cons)

text \<open>
  Claim C10. For a non-empty sequence in which no iteration's value of \<^verbatim>\<open>new_note\<close> lies
  outside \<open>[0, 127]\<close> before clamping, the output pitch at every index \<open>i\<close> is
  \<open>2 * S[0] - S[i]\<close>: the reflection of the input pitch about the first pitch.
\<close>

theorem intervallic_inversion_reflection:
  assumes "notes \<noteq> []"
    and "\<forall>i. 1 \<le> i \<and> i < length notes \<longrightarrow>
           0 \<le> new_note_unclamped notes i \<and> new_note_unclamped notes i \<le> 127"
  shows "\<forall>i < length notes.
           pitch (intervallic_inversion notes ! i) = 2 * pitch (notes ! 0) - pitch (notes ! i)"
proof (intro allI impI)
  fix i
  show "i < length notes \<Longrightarrow>
     pitch (intervallic_inversion notes ! i) = 2 * pitch (notes ! 0) - pitch (notes ! i)"
  proof (induction i)
    case 0
    then show ?case by (simp add: intervallic_inversion_nth)
  next
    case (Suc i)
    then have ih: "pitch (intervallic_inversion notes ! i) = 2 * pitch (notes ! 0) - pitch (notes ! i)"
      by simp
    from Suc.prems assms(2) have rng:
      "0 \<le> new_note_unclamped notes (Suc i)" "new_note_unclamped notes (Suc i) \<le> 127"
      by simp_all
    have "pitch (intervallic_inversion notes ! Suc i) = max 0 (min 127 (new_note_unclamped notes (Suc i)))"
      by (subst intervallic_inversion_nth [OF Suc.prems]) (simp add: new_note_unclamped_def)
    also have "\<dots> = new_note_unclamped notes (Suc i)"
      using rng by simp
    also have "\<dots> = 2 * pitch (notes ! 0) - pitch (notes ! Suc i)"
      using ih by (simp add: new_note_unclamped_def)
    finally show ?case .
  qed
qed

theorem intervallic_inversion_reflection_witness:
  "[\<lparr>pitch = 60, velocity = 80, time = 0\<rparr>, \<lparr>pitch = 62, velocity = 80, time = 0\<rparr>,
    \<lparr>pitch = 59, velocity = 80, time = 0\<rparr>] \<noteq> [] \<and>
   new_note_unclamped [\<lparr>pitch = 60, velocity = 80, time = 0\<rparr>,
      \<lparr>pitch = 62, velocity = 80, time = 0\<rparr>, \<lparr>pitch = 59, velocity = 80, time = 0\<rparr>] 1 = 58 \<and>
   new_note_unclamped [\<lparr>pitch = 60, velocity = 80, time = 0\<rparr>,
      \<lparr>pitch = 62, velocity = 80, time = 0\<rparr>, \<lparr>pitch = 59, velocity = 80, time = 0\<rparr>] 2 = 61 \<and>
   pitch (intervallic_inversion [\<lparr>pitch = 60, velocity = 80, time = 0\<rparr>,
      \<lparr>pitch = 62, velocity = 80, time = 0\<rparr>, \<lparr>pitch = 59, velocity = 80, time = 0\<rparr>] ! 2)
     = 2 * 60 - 59"
proof -
  let ?S = "[\<lparr>pitch = 60, velocity = 80, time = 0\<rparr>, \<lparr>pitch = 62, velocity = 80, time = 0\<rparr>,
    \<lparr>pitch = 59, velocity = 80, time = 0\<rparr>]"
  have out: "intervallic_inversion ?S =
     [\<lparr>pitch = 60, velocity = 80, time = 0\<rparr>, \<lparr>pitch = 58, velocity = 80, time = 0\<rparr>,
      \<lparr>pitch = 61, velocity = 80, time = 0\<rparr>]"
    by (simp add: intervallic_inversion_def inversion_step_def upt_conv_Cons)
  have ne: "?S \<noteq> []" by simp
  have u1: "new_note_unclamped ?S 1 = 58" and u2: "new_note_unclamped ?S 2 = 61"
    by (simp_all add: new_note_unclamped_def out)
  have rng: "\<forall>i. 1 \<le> i \<and> i < length ?S \<longrightarrow>
      0 \<le> new_note_unclamped ?S i \<and> new_note_unclamped ?S i \<le> 127"
  proof (intro allI impI)
    fix i :: nat
    assume "1 \<le> i \<and> i < length ?S"
    then have "i = 1 \<or> i = 2" by auto
    then show "0 \<le> new_note_unclamped ?S i \<and> new_note_unclamped ?S i \<le> 127"
      using u1 u2 by auto
  qed
  have "2 < length ?S" by simp
  with intervallic_inversion_reflection [OF ne rng]
  have "pitch (intervallic_inversion ?S ! 2) = 2 * pitch (?S ! 0) - pitch (?S ! 2)"
    by blast
  then have "pitch (intervallic_inversion ?S ! 2) = 2 * 60 - 59" by simp
  with ne u1 u2 show ?thesis by blast
qed

section \<open>Axis inversion\<close>

text \<open>The loop of \<^verbatim>\<open>invert_notes\<close> maps each note on its own: no note depends on another.\<close>

lemma invert_fold_map:
  "fold (invert_step axis) notes acc = acc @
     map (\<lambda>n. \<lparr>pitch = max 0 (min 127 (py_int (2 * axis - of_int (pitch n)))),
                velocity = velocity n, time = time n\<rparr>) notes"
proof (induction "notes" arbitrary: acc)
  case Nil
  show ?case by simp
next
  case (Cons n ns)
  have "fold (invert_step axis) (n # ns) acc = fold (invert_step axis) ns (invert_step axis n acc)"
    by simp
  also have "\<dots> = invert_step axis n acc @
     map (\<lambda>n. \<lparr>pitch = max 0 (min 127 (py_int (2 * axis - of_int (pitch n)))),
                velocity = velocity n, time = time n\<rparr>) ns"
    by (rule Cons.IH)
  also have "\<dots> = acc @
     map (\<lambda>n. \<lparr>pitch = max 0 (min 127 (py_int (2 * axis - of_int (pitch n)))),
                velocity = velocity n, time = time n\<rparr>) (n # ns)"
    by (simp add: invert_step_def Let_def)
  finally show ?case .
qed

text \<open>The two generator expressions compute the least and the greatest pitch.\<close>

lemma fold_min_pitch:
  "fold (\<lambda>n m. min m (pitch n)) rest a = Min (insert a (pitch ` set rest))"
proof (induction rest arbitrary: a)
  case Nil
  show ?case by simp
next
  case (Cons n rest)
  have "Min (insert (min a (pitch n)) (pitch ` set rest)) = Min (insert a (insert (pitch n) (pitch ` set rest)))"
    by (cases "rest = []") (simp_all add: min.assoc min.commute min.left_commute)
  then show ?case by (simp add: Cons.IH)
qed

lemma fold_max_pitch:
  "fold (\<lambda>n m. max m (pitch n)) rest a = Max (insert a (pitch ` set rest))"
proof (induction rest arbitrary: a)
  case Nil
  show ?case by simp
next
  case (Cons n rest)
  have "Max (insert (max a (pitch n)) (pitch ` set rest)) = Max (insert a (insert (pitch n) (pitch ` set rest)))"
    by (cases "rest = []") (simp_all add: max.assoc max.commute max.left_commute)
  then show ?case by (simp add: Cons.IH)
qed

lemma invert_notes_None:
  assumes "notes \<noteq> []"
  shows "invert_notes notes None =
     map (\<lambda>n. \<lparr>pitch = max 0 (min 127 (py_int (2 * (of_int (Min (pitch ` set notes) + Max (pitch ` set notes)) / 2) - of_int (pitch n)))),
                velocity = velocity n, time = time n\<rparr>) notes"
proof -
  from assms obtain n0 rest where eq: "notes = n0 # rest" by (cases "notes") auto
  show ?thesis
    unfolding eq invert_notes_def
    by (simp only: list.case option.case Let_def invert_fold_map fold_min_pitch fold_max_pitch
          append_Nil list.set image_insert)
qed

text \<open>
  Claim C4. For a non-empty sequence, \<open>invert_notes\<close> without an axis takes as axis the
  midpoint \<open>(min pitch + max pitch) / 2\<close> as a fraction, not rounded to an integer, and
  maps the pitch of each note to \<open>2 * axis - pitch\<close>, truncated toward zero and clamped
  to \<open>[0, 127]\<close>; velocity and time stay as they are.
\<close>

theorem axis_invert_midpoint:
  assumes "notes \<noteq> []"
  shows "invert_notes notes None =
     (let axis = (of_int (Min (pitch ` set notes)) + of_int (Max (pitch ` set notes))) / 2
      in map (\<lambda>n. n\<lparr>pitch := max 0 (min 127 (py_int (2 * axis - of_int (pitch n))))\<rparr>) notes)"
  by (simp add: invert_notes_None [OF assms])

text \<open>
  The theorem at the pitches \<open>24, 25, 29\<close>: the axis is \<open>26.5\<close> and the outputs are
  \<open>53 - pitch\<close>; an axis rounded down to \<open>26\<close> would have given \<open>28, 27, 23\<close>.
\<close>

theorem axis_invert_midpoint_witness:
  "[\<lparr>pitch = 24, velocity = 70, time = 0\<rparr>, \<lparr>pitch = 25, velocity = 71, time = 10\<rparr>,
    \<lparr>pitch = 29, velocity = 72, time = 20\<rparr>] \<noteq> [] \<and>
   invert_notes [\<lparr>pitch = 24, velocity = 70, time = 0\<rparr>, \<lparr>pitch = 25, velocity = 71, time = 10\<rparr>,
    \<lparr>pitch = 29, velocity = 72, time = 20\<rparr>] None =
   [\<lparr>pitch = 29, velocity = 70, time = 0\<rparr>, \<lparr>pitch = 28, velocity = 71, time = 10\<rparr>,
    \<lparr>pitch = 24, velocity = 72, time = 20\<rparr>]"
  using axis_invert_midpoint
    [of "[\<lparr>pitch = 24, velocity = 70, time = 0\<rparr>, \<lparr>pitch = 25, velocity = 71, time = 10\<rparr>,
    \<lparr>pitch = 29, velocity = 72, time = 20\<rparr>]"]
  by (simp add: py_int_def)

section \<open>Range of the output pitches\<close>

lemma invert_notes_map:
  "\<exists>a. invert_notes notes axis =
     map (\<lambda>n. \<lparr>pitch = max 0 (min 127 (py_int (2 * a - of_int (pitch n)))),
                velocity = velocity n, time = time n\<rparr>) notes"
proof (cases "notes")
  case Nil
  then show ?thesis by (simp add: invert_notes_def)
next
  case (Cons n0 rest)
  show ?thesis
    unfolding Cons invert_notes_def
    by (simp only: list.case Let_def invert_fold_map append_Nil) blast
qed

text \<open>
  Claim C6. When every input pitch lies in \<open>[0, 127]\<close>, so does every pitch in the output
  of \<open>reverse_notes\<close>, of \<open>intervallic_inversion\<close> and of \<open>invert_notes\<close> (with or without
  an axis).
\<close>

theorem transformers_pitch_range:
  assumes "\<forall>n \<in> set notes. 0 \<le> pitch n \<and> pitch n \<le> 127"
  shows "(\<forall>n \<in> set (reverse_notes notes). 0 \<le> pitch n \<and> pitch n \<le> 127) \<and>
         (\<forall>n \<in> set (intervallic_inversion notes). 0 \<le> pitch n \<and> pitch n \<le> 127) \<and>
         (\<forall>n \<in> set (invert_notes notes axis). 0 \<le> pitch n \<and> pitch n \<le> 127)"
proof (intro conjI ballI)
  fix n assume "n \<in> set (reverse_notes notes)"
  then have "n \<in> set notes" by (simp add: reverse_notes_def)
  with assms show "0 \<le> pitch n" "pitch n \<le> 127" by simp_all
next
  fix n assume "n \<in> set (intervallic_inversion notes)"
  then obtain i where i: "i < length notes" and n: "n = intervallic_inversion notes ! i"
    by (auto simp add: in_set_conv_nth intervallic_inversion_length)
  have "0 \<le> pitch n \<and> pitch n \<le> 127"
  proof (cases "i = 0")
    case True
    with i have "n = notes ! 0" "notes ! 0 \<in> set notes"
      by (simp_all add: n intervallic_inversion_nth)
    with assms show ?thesis by simp
  next
    case False
    then show ?thesis
      by (simp add: n intervallic_inversion_nth [OF i])
  qed
  then show "0 \<le> pitch n" "pitch n \<le> 127" by simp_all
next
  fix n assume n: "n \<in> set (invert_notes notes axis)"
  from invert_notes_map [of "notes" axis] obtain a where
    "invert_notes notes axis =
       map (\<lambda>n. \<lparr>pitch = max 0 (min 127 (py_int (2 * a - of_int (pitch n)))),
                velocity = velocity n, time = time n\<rparr>) notes" ..
  with n have "0 \<le> pitch n \<and> pitch n \<le> 127" by auto
  then show "0 \<le> pitch n" "pitch n \<le> 127" by simp_all
qed

theorem transformers_pitch_range_witness:
  "list_all (\<lambda>n. 0 \<le> pitch n \<and> pitch n \<le> 127)
     [\<lparr>pitch = 5, velocity = 70, time = 0\<rparr>, \<lparr>pitch = 120, velocity = 71, time = 10\<rparr>,
      \<lparr>pitch = 10, velocity = 72, time = 20\<rparr>] \<and>
   list_all (\<lambda>n. 0 \<le> pitch n \<and> pitch n \<le> 127)
     (reverse_notes [\<lparr>pitch = 5, velocity = 70, time = 0\<rparr>,
        \<lparr>pitch = 120, velocity = 71, time = 10\<rparr>, \<lparr>pitch = 10, velocity = 72, time = 20\<rparr>]) \<and>
   list_all (\<lambda>n. 0 \<le> pitch n \<and> pitch n \<le> 127)
     (intervallic_inversion [\<lparr>pitch = 5, velocity = 70, time = 0\<rparr>,
        \<lparr>pitch = 120, velocity = 71, time = 10\<rparr>, \<lparr>pitch = 10, velocity = 72, time = 20\<rparr>]) \<and>
   list_all (\<lambda>n. 0 \<le> pitch n \<and> pitch n \<le> 127)
     (invert_notes [\<lparr>pitch = 5, velocity = 70, time = 0\<rparr>,
        \<lparr>pitch = 120, velocity = 71, time = 10\<rparr>, \<lparr>pitch = 10, velocity = 72, time = 20\<rparr>] (Some 100))"
proof -
  let ?S = "[\<lparr>pitch = 5, velocity = 70, time = 0\<rparr>, \<lparr>pitch = 120, velocity = 71, time = 10\<rparr>,
        \<lparr>pitch = 10, velocity = 72, time = 20\<rparr>]"
  have rng: "\<forall>n \<in> set ?S. 0 \<le> pitch n \<and> pitch n \<le> 127" by simp
  from rng transformers_pitch_range [OF rng, of "Some 100"] show ?thesis
    unfolding list_all_iff by blast
qed

section \<open>The four-part sequence\<close>

text \<open>
  Claim C7. The combined sequence of \<^verbatim>\<open>main\<close> is the input, its reverse, its intervallic
  inversion and the reverse of that inversion, concatenated in this order; it is four
  times as long as the input.
\<close>

theorem sequence_composer_concat:
  "main_steps S = S @ reverse_notes S @ intervallic_inversion S @ reverse_notes (intervallic_inversion S)
   \<and> length (main_steps S) = 4 * length S"
  by (simp add: main_steps_def Let_def reverse_notes_def intervallic_inversion_length)

section \<open>Empty input\<close>

text \<open>
  Claim C8. On the empty sequence each of the three pitch transformers returns the empty
  sequence, and \<open>create_melody_with_random_durations\<close> returns with no event, whatever
  the draws: nothing raises and no draw is awaited.
\<close>

theorem empty_input_accepted:
  "reverse_notes ([] :: timed_note list) = [] \<and>
   intervallic_inversion [] = [] \<and>
   invert_notes [] axis = [] \<and>
   create_melody_with_random_durations [] ticks_per_beat draws = Returned []"
  by (cases draws)
     (simp_all add: reverse_notes_def intervallic_inversion_def invert_notes_def
        create_melody_with_random_durations_def initial_state_def)

section \<open>Rhythm assignment: what a run emits\<close>

text \<open>A pass through the loop body that does not raise appends exactly one event.\<close>

lemma loop_body_appends:
  assumes "loop_body notes ticks_per_beat (dc, mc) st = Inr st'"
  shows "\<exists>b c. duration_map ticks_per_beat dc = Some b \<and>
     c = (case held_note st of Some h \<Rightarrow> h | None \<Rightarrow> notes ! note_index st) \<and>
     melody_events st' = melody_events st @
       [if mc = 1 then Note_event (pitch c) (velocity c) b
        else if mc = 2 then Note_event (pitch c) (velocity c) (py_int (of_int b * (3 / 2)))
        else Rest_event b]"
  using assms
  by (cases "held_note st")
     (auto simp add: loop_body_def Let_def split: option.splits if_splits)

text \<open>A property of the state that the loop body preserves holds wherever the loop stops.\<close>

lemma while_loop_invariant:
  assumes step: "\<And>draw s s'. loop_body notes ticks_per_beat draw s = Inr s' \<Longrightarrow> P s \<Longrightarrow> P s'"
    and init: "P st"
  shows "case while_loop notes ticks_per_beat draws st of
           Returned s \<Rightarrow> P s | Needs_draw s \<Rightarrow> P s | Raised e \<Rightarrow> True"
  using init
proof (induction draws arbitrary: st)
  case Nil
  then show ?case by simp
next
  case (Cons draw draws)
  show ?case
  proof (cases "note_index st < length notes")
    case False
    with Cons.prems show ?thesis by simp
  next
    case True
    show ?thesis
    proof (cases "loop_body notes ticks_per_beat draw st")
      case (Inl e)
      with True show ?thesis by simp
    next
      case (Inr s')
      from Inr Cons.prems have "P s'" by (rule step)
      then have "case while_loop notes ticks_per_beat draws s' of
           Returned s \<Rightarrow> P s | Needs_draw s \<Rightarrow> P s | Raised e \<Rightarrow> True"
        by (rule Cons.IH)
      with True Inr show ?thesis by simp
    qed
  qed
qed

lemma emitted_invariant:
  assumes step: "\<And>dc mc s s'. loop_body notes ticks_per_beat (dc, mc) s = Inr s' \<Longrightarrow>
       \<forall>e \<in> set (melody_events s). Q e \<Longrightarrow> \<forall>e \<in> set (melody_events s'). Q e"
  shows "\<forall>e \<in> set (emitted (create_melody_with_random_durations notes ticks_per_beat draws)). Q e"
proof -
  have "case while_loop notes ticks_per_beat draws initial_state of
           Returned s \<Rightarrow> (\<forall>e \<in> set (melody_events s). Q e)
         | Needs_draw s \<Rightarrow> (\<forall>e \<in> set (melody_events s). Q e)
         | Raised e \<Rightarrow> True"
  proof (rule while_loop_invariant)
    fix draw s s'
    assume "loop_body notes ticks_per_beat draw s = Inr s'" "\<forall>e \<in> set (melody_events s). Q e"
    then show "\<forall>e \<in> set (melody_events s'). Q e"
      by (cases draw) (auto dest: step)
  next
    show "\<forall>e \<in> set (melody_events initial_state). Q e"
      by (simp add: initial_state_def)
  qed
  then show ?thesis
    by (cases "while_loop notes ticks_per_beat draws initial_state")
       (simp_all add: create_melody_with_random_durations_def)
qed

text \<open>
  With the values that \<^verbatim>\<open>random.randint(1, 6)\<close> and \<^verbatim>\<open>random.randint(1, 3)\<close> return, the
  lookup in \<open>duration_map\<close> finds its key: a run never raises.
\<close>

lemma loop_body_valid_draw:
  assumes "valid_draw draw"
  shows "\<exists>st'. loop_body notes ticks_per_beat draw st = Inr st'"
proof -
  obtain dc mc where draw: "draw = (dc, mc)" by (cases draw)
  from assms have "dc = 1 \<or> dc = 2 \<or> dc = 3 \<or> dc = 4 \<or> dc = 5 \<or> dc = 6"
    by (auto simp add: valid_draw_def draw)
  then obtain b where "duration_map ticks_per_beat dc = Some b"
    by (auto simp add: duration_map_def)
  then show ?thesis
    by (cases "held_note st") (simp_all add: loop_body_def draw Let_def)
qed

lemma valid_draws_never_raise:
  "list_all valid_draw draws \<Longrightarrow> while_loop notes ticks_per_beat draws st \<noteq> Raised e"
proof (induction draws arbitrary: st)
  case Nil
  show ?case by simp
next
  case (Cons draw draws)
  from Cons.prems have v: "valid_draw draw" and rest: "list_all valid_draw draws" by simp_all
  from loop_body_valid_draw [OF v] obtain st' where
    "loop_body notes ticks_per_beat draw st = Inr st'" by blast
  with Cons.IH [OF rest, of st'] show ?case by simp
qed

lemma duration_map_values:
  "duration_map ticks_per_beat dc = Some b \<Longrightarrow>
     b \<in> {ticks_per_beat div 8, ticks_per_beat div 4, ticks_per_beat div 2,
          ticks_per_beat, ticks_per_beat * 2, ticks_per_beat * 4}"
  by (auto simp add: duration_map_def split: if_splits)

text \<open>
  Claim C5. With 480 ticks per beat, every event that a run of
  \<open>create_melody_with_random_durations\<close> has appended, note or rest, has a duration among
  \<open>60, 90, 120, 180, 240, 360, 480, 720, 960, 1440, 1920, 2880\<close>.
\<close>

theorem emitted_durations_canonical:
  "\<forall>e \<in> set (emitted (create_melody_with_random_durations notes 480 draws)).
     duration e \<in> {60, 90, 120, 180, 240, 360, 480, 720, 960, 1440, 1920, 2880}"
proof (rule emitted_invariant)
  fix dc mc s s'
  assume body: "loop_body notes 480 (dc, mc) s = Inr s'"
    and inv: "\<forall>e \<in> set (melody_events s).
       duration e \<in> {60, 90, 120, 180, 240, 360, 480, 720, 960, 1440, 1920, 2880}"
  from loop_body_appends [OF body] obtain b c where
    b: "duration_map 480 dc = Some b" and
    c: "c = (case held_note s of Some h \<Rightarrow> h | None \<Rightarrow> notes ! note_index s)" and
    ev: "melody_events s' = melody_events s @
       [if mc = 1 then Note_event (pitch c) (velocity c) b
        else if mc = 2 then Note_event (pitch c) (velocity c) (py_int (of_int b * (3 / 2)))
        else Rest_event b]"
    by blast
  from duration_map_values [OF b] have "b \<in> {60, 120, 240, 480, 960, 1920}" by simp
  then have "b \<in> {60, 120, 240, 480, 960, 1920} \<and>
     py_int (of_int b * (3 / 2)) \<in> {90, 180, 360, 720, 1440, 2880}"
    by (auto simp add: py_int_def)
  with inv show "\<forall>e \<in> set (melody_events s').
       duration e \<in> {60, 90, 120, 180, 240, 360, 480, 720, 960, 1440, 1920, 2880}"
    by (auto simp add: ev)
qed


theorem emitted_durations_canonical_witness:
  "emitted (create_melody_with_random_durations
      [\<lparr>pitch = 60, velocity = 80\<rparr>, \<lparr>pitch = 62, velocity = 81\<rparr>] 480 [(4, 3), (5, 2), (1, 1)])
     = [Rest_event 480, Note_event 60 80 1440, Note_event 62 81 60] \<and>
   list_all (\<lambda>e. duration e \<in> {60, 90, 120, 180, 240, 360, 480, 720, 960, 1440, 1920, 2880})
     (emitted (create_melody_with_random_durations
        [\<lparr>pitch = 60, velocity = 80\<rparr>, \<lparr>pitch = 62, velocity = 81\<rparr>] 480 [(4, 3), (5, 2), (1, 1)]))"
proof -
  have "emitted (create_melody_with_random_durations
      [\<lparr>pitch = 60, velocity = 80\<rparr>, \<lparr>pitch = 62, velocity = 81\<rparr>] 480 [(4, 3), (5, 2), (1, 1)])
     = [Rest_event 480, Note_event 60 80 1440, Note_event 62 81 60]"
    by (simp add: create_melody_with_random_durations_def initial_state_def loop_body_def
          duration_map_def py_int_def)
  with emitted_durations_canonical
    [of "[\<lparr>pitch = 60, velocity = 80\<rparr>, \<lparr>pitch = 62, velocity = 81\<rparr>]" "[(4, 3), (5, 2), (1, 1)]"]
  show ?thesis unfolding list_all_iff by blast
qed

text \<open>
  Claim C9. Every rest that a run has appended has one of the six base durations of
  \<open>duration_map\<close>, undotted; and a pass through the loop body with the dotted modifier
  (2) appends a note, with the base duration times 1.5, never a rest.
\<close>

theorem rests_have_base_duration:
  "(\<forall>e \<in> set (emitted (create_melody_with_random_durations notes ticks_per_beat draws)).
      is_rest e \<longrightarrow>
      duration e \<in> {ticks_per_beat div 8, ticks_per_beat div 4, ticks_per_beat div 2,
                     ticks_per_beat, ticks_per_beat * 2, ticks_per_beat * 4}) \<and>
   (\<forall>dc st st'. loop_body notes ticks_per_beat (dc, 2) st = Inr st' \<longrightarrow>
      (\<exists>n v b. duration_map ticks_per_beat dc = Some b \<and>
         melody_events st' = melody_events st @ [Note_event n v (py_int (of_int b * (3 / 2)))]))"
proof (rule conjI)
  show "\<forall>e \<in> set (emitted (create_melody_with_random_durations notes ticks_per_beat draws)).
      is_rest e \<longrightarrow>
      duration e \<in> {ticks_per_beat div 8, ticks_per_beat div 4, ticks_per_beat div 2,
                     ticks_per_beat, ticks_per_beat * 2, ticks_per_beat * 4}"
  proof (rule emitted_invariant)
    fix dc mc s s'
    assume body: "loop_body notes ticks_per_beat (dc, mc) s = Inr s'"
      and inv: "\<forall>e \<in> set (melody_events s). is_rest e \<longrightarrow>
        duration e \<in> {ticks_per_beat div 8, ticks_per_beat div 4, ticks_per_beat div 2,
                     ticks_per_beat, ticks_per_beat * 2, ticks_per_beat * 4}"
    from loop_body_appends [OF body] obtain b c where
      b: "duration_map ticks_per_beat dc = Some b" and
      c: "c = (case held_note s of Some h \<Rightarrow> h | None \<Rightarrow> notes ! note_index s)" and
      ev: "melody_events s' = melody_events s @
         [if mc = 1 then Note_event (pitch c) (velocity c) b
          else if mc = 2 then Note_event (pitch c) (velocity c) (py_int (of_int b * (3 / 2)))
          else Rest_event b]"
      by blast
    from duration_map_values [OF b] inv
    show "\<forall>e \<in> set (melody_events s'). is_rest e \<longrightarrow>
        duration e \<in> {ticks_per_beat div 8, ticks_per_beat div 4, ticks_per_beat div 2,
                     ticks_per_beat, ticks_per_beat * 2, ticks_per_beat * 4}"
      by (auto simp add: ev)
  qed
next
  show "\<forall>dc st st'. loop_body notes ticks_per_beat (dc, 2) st = Inr st' \<longrightarrow>
      (\<exists>n v b. duration_map ticks_per_beat dc = Some b \<and>
         melody_events st' = melody_events st @ [Note_event n v (py_int (of_int b * (3 / 2)))])"
  proof (intro allI impI)
    fix dc st st'
    assume "loop_body notes ticks_per_beat (dc, 2) st = Inr st'"
    from loop_body_appends [OF this]
    show "\<exists>n v b. duration_map ticks_per_beat dc = Some b \<and>
         melody_events st' = melody_events st @ [Note_event n v (py_int (of_int b * (3 / 2)))]"
      by auto
  qed
qed

theorem rests_have_base_duration_witness:
  "emitted (create_melody_with_random_durations
      [\<lparr>pitch = 60, velocity = 80\<rparr>, \<lparr>pitch = 62, velocity = 81\<rparr>] 480 [(4, 3), (5, 2), (2, 3)])
     = [Rest_event 480, Note_event 60 80 1440, Rest_event 120] \<and>
   list_all (\<lambda>e. duration e \<in> {60, 120, 240, 480, 960, 1920})
     (filter is_rest (emitted (create_melody_with_random_durations
        [\<lparr>pitch = 60, velocity = 80\<rparr>, \<lparr>pitch = 62, velocity = 81\<rparr>] 480 [(4, 3), (5, 2), (2, 3)]))) \<and>
   loop_body [\<lparr>pitch = 60, velocity = 80\<rparr>, \<lparr>pitch = 62, velocity = 81\<rparr>] 480 (5, 2)
      \<lparr>melody_events = [Rest_event 480], note_index = 1,
       held_note = Some \<lparr>pitch = 60, velocity = 80\<rparr>, event_number = 2\<rparr>
     = Inr \<lparr>melody_events = [Rest_event 480, Note_event 60 80 1440], note_index = 1,
            held_note = None, event_number = 3\<rparr> \<and>
   (\<exists>n v b. duration_map 480 5 = Some b \<and>
      [Rest_event 480, Note_event 60 80 1440] =
        [Rest_event 480] @ [Note_event n v (py_int (of_int b * (3 / 2)))])"
proof -
  let ?S = "[\<lparr>pitch = 60, velocity = 80\<rparr>, \<lparr>pitch = 62, velocity = 81\<rparr>]"
  let ?st = "\<lparr>melody_events = [Rest_event 480], note_index = 1,
       held_note = Some \<lparr>pitch = 60, velocity = 80\<rparr>, event_number = 2\<rparr>"
  let ?st' = "\<lparr>melody_events = [Rest_event 480, Note_event 60 80 1440], note_index = 1,
            held_note = None, event_number = 3\<rparr>"
  note inst = rests_have_base_duration [of ?S 480 "[(4, 3), (5, 2), (2, 3)]"]
  have run: "emitted (create_melody_with_random_durations ?S 480 [(4, 3), (5, 2), (2, 3)])
     = [Rest_event 480, Note_event 60 80 1440, Rest_event 120]"
    by (simp add: create_melody_with_random_durations_def initial_state_def loop_body_def
          duration_map_def py_int_def)
  have body: "loop_body ?S 480 (5, 2) ?st = Inr ?st'"
    by (simp add: loop_body_def duration_map_def py_int_def)
  from inst have "\<forall>e \<in> set (emitted (create_melody_with_random_durations
      ?S 480 [(4, 3), (5, 2), (2, 3)])).
      is_rest e \<longrightarrow> duration e \<in> {60, 120, 240, 480, 960, 1920}"
    by simp
  then have rests: "list_all (\<lambda>e. duration e \<in> {60, 120, 240, 480, 960, 1920})
     (filter is_rest (emitted (create_melody_with_random_durations
        ?S 480 [(4, 3), (5, 2), (2, 3)])))"
    unfolding list_all_iff by simp
  from inst body have "\<exists>n v b. duration_map 480 5 = Some b \<and>
         melody_events ?st' = melody_events ?st @ [Note_event n v (py_int (of_int b * (3 / 2)))]"
    by blast
  then have dotted: "\<exists>n v b. duration_map 480 5 = Some b \<and>
      [Rest_event 480, Note_event 60 80 1440] =
        [Rest_event 480] @ [Note_event n v (py_int (of_int b * (3 / 2)))]"
    by simp
  from run rests body dotted show ?thesis by blast
qed

section \<open>Rhythm assignment: the held note at the end of the input\<close>

text \<open>
  Claim C1 says that the engine never stops while a note is held. The loop condition of
  the source is \<^verbatim>\<open>note_index < len(notes)\<close> alone: when the pass that reads the last
  input note draws the silence modifier, the loop returns after that pass with the note
  still in \<^verbatim>\<open>held_note\<close>, and the note is never emitted. Here the input is any single
  note and the first draw is (quarter, silence); whatever draws follow are not used.
\<close>

theorem hold_occupied_at_return:
  "while_loop [n] 480 ((4, 3) # draws) initial_state =
     Returned \<lparr>melody_events = [Rest_event 480], note_index = 1,
               held_note = Some n, event_number = 2\<rparr>"
  by (cases draws) (simp_all add: initial_state_def loop_body_def duration_map_def)

text \<open>
  Claim C2 expects \<open>[Rest_event 480, Note_event 60 80 480]\<close> from the input
  \<open>[{note: 60, velocity: 80}]\<close> with the draws (4, 3) then (4, 1). The source returns
  after the first pass, with the rest alone and the note still held; the second draw is
  never made.
\<close>

theorem scenario_silence_then_normal:
  "create_melody_with_random_durations [\<lparr>pitch = 60, velocity = 80\<rparr>] 480 [(4, 3), (4, 1)]
     = Returned [Rest_event 480] \<and>
   while_loop [\<lparr>pitch = 60, velocity = 80\<rparr>] 480 [(4, 3), (4, 1)] initial_state
     = Returned \<lparr>melody_events = [Rest_event 480], note_index = 1,
                 held_note = Some \<lparr>pitch = 60, velocity = 80\<rparr>, event_number = 2\<rparr>"
  by (simp add: create_melody_with_random_durations_def initial_state_def loop_body_def
        duration_map_def)

end
